theory Spec2Isabelle
  imports Main "HOL-Library.AList" "HOL-Library.Product_Lexorder" "HOL-Library.Option_ord"
begin

section \<open>The data model of people/models.py\<close>

text \<open>
  A \<open>datetime.date\<close>: the three integer attributes the code reads.
\<close>

record date =
  year :: int
  month :: int
  day :: int

text \<open>
  A row of the \<open>Person\<close> table. \<open>pk\<close> is Django's automatic primary key \<open>id\<close>
  (Django compares and hashes model instances by it). \<open>mother\<close> and \<open>father\<close> are the
  nullable foreign keys, held as the primary key of the row they point to. The name
  fields and the notes are read by \<open>name\<close> only and are left out.
\<close>

record Person =
  pk :: nat
  gender :: char
  date_of_birth :: "date option"
  date_of_death :: "date option"
  deceased :: bool
  mother :: "nat option"
  father :: "nat option"

text \<open>The exceptions the methods can end with.\<close>

datatype error =
  AttributeError
| KeyError
| DoesNotExist
| RuntimeError
| ValidationError

text \<open>The \<open>Person\<close> table: the rows in the order the database holds them.\<close>

type_synonym store = "Person list"

text \<open>
  Following a foreign key (\<open>self.mother\<close>, \<open>self.father\<close>) loads the row with that
  primary key; Django raises \<open>DoesNotExist\<close> when there is none.
\<close>

definition fetch :: "store \<Rightarrow> nat \<Rightarrow> error + Person" where
  "fetch g i = (case find (\<lambda>p. pk p = i) g of None \<Rightarrow> Inl DoesNotExist | Some p \<Rightarrow> Inr p)"

text \<open>
  \<open>order_by('date_of_birth')\<close>: a stable sort on the birth date, rows without one first.
  (Where NULLs go and how ties are broken is the database's choice; no statement below
  depends on it.)
\<close>

definition date_key :: "date \<Rightarrow> int \<times> int \<times> int" where
  "date_key d = (year d, month d, day d)"

definition order_by_date_of_birth :: "Person list \<Rightarrow> Person list" where
  "order_by_date_of_birth ps = sort_key (\<lambda>p. map_option date_key (date_of_birth p)) ps"

section \<open>The methods of Person\<close>

text \<open>
  \<open>age\<close>; \<open>date.today()\<close> is the first argument, \<open>None\<close> is the result \<open>None\<close>.
\<close>

definition age :: "date \<Rightarrow> Person \<Rightarrow> int option" where
  "age today self =
     (case date_of_birth self of
        None \<Rightarrow> None
      | Some birth \<Rightarrow>
          (case (if deceased self then date_of_death self else Some today) of
             None \<Rightarrow> None
           | Some end_date \<Rightarrow>
               (let years = year end_date - year birth
                in if month end_date < month birth
                      \<or> (month end_date = month birth \<and> day end_date < day birth)
                   then Some (years - 1) else Some years)))"

text \<open>
  Reading a parent link as an argument (\<open>self.father\<close>, \<open>self.mother\<close>): \<open>None\<close> when
  it is null, the row it loads otherwise.
\<close>

definition follow :: "store \<Rightarrow> nat option \<Rightarrow> error + Person option" where
  "follow g link =
     (case link of
        None \<Rightarrow> Inr None
      | Some i \<Rightarrow> (case fetch g i of Inl e \<Rightarrow> Inl e | Inr p \<Rightarrow> Inr (Some p)))"

text \<open>
  \<open>siblings\<close>: building the filter reads \<open>self.father\<close>, then \<open>self.mother\<close>; the result
  is the rows other than \<open>self\<close> with a non-null father equal to \<open>self.father\<close> or a
  non-null mother equal to \<open>self.mother\<close>. (\<open>father=None\<close> in a Django filter is
  \<open>father IS NULL\<close>.)
\<close>

definition siblings :: "store \<Rightarrow> Person \<Rightarrow> error + Person list" where
  "siblings g self =
     (case follow g (father self) of
        Inl e \<Rightarrow> Inl e
      | Inr _ \<Rightarrow>
          (case follow g (mother self) of
             Inl e \<Rightarrow> Inl e
           | Inr _ \<Rightarrow>
               Inr (order_by_date_of_birth
                      (filter (\<lambda>p. pk p \<noteq> pk self
                                 \<and> ((father p \<noteq> None \<and> father p = father self)
                                    \<or> (mother p \<noteq> None \<and> mother p = mother self))) g))))"

text \<open>
  \<open>children\<close>: the reverse relation \<open>children_of_mother\<close> when the gender is \<open>'F'\<close>,
  \<open>children_of_father\<close> otherwise.
\<close>

definition children :: "store \<Rightarrow> Person \<Rightarrow> Person list" where
  "children g self =
     order_by_date_of_birth
       (filter (\<lambda>c. (if gender self = CHR ''F'' then mother c else father c) = Some (pk self)) g)"

text \<open>
  The loop \<open>for child in children: descendants += child.descendants()\<close>.
\<close>

fun extend_each ::
  "(Person \<Rightarrow> error + Person list) \<Rightarrow> Person list \<Rightarrow> Person list \<Rightarrow> error + Person list" where
  "extend_each f [] acc = Inr acc"
| "extend_each f (child # rest) acc =
     (case f child of Inl e \<Rightarrow> Inl e | Inr ds \<Rightarrow> extend_each f rest (acc @ ds))"

text \<open>
  \<open>descendants\<close>. The first argument is the number of stack frames the interpreter still
  allows: every call uses one, and a call made with none left ends in Python's
  \<open>RuntimeError\<close> (maximum recursion depth exceeded).
\<close>

fun descendants :: "nat \<Rightarrow> store \<Rightarrow> Person \<Rightarrow> error + Person list" where
  "descendants 0 g self = Inl RuntimeError"
| "descendants (Suc depth) g self =
     extend_each (\<lambda>child. descendants depth g child) (children g self) (children g self)"

text \<open>
  A dictionary keyed by persons, as an association list on their primary keys;
  \<open>d[k] = v\<close> is \<open>AList.update\<close>, \<open>d.update(e)\<close> is \<open>AList.merge\<close>. (The order of the
  keys is the model's; Python's is that of the hash table.)
\<close>

type_synonym dict = "(nat \<times> int) list"

text \<open>
  One of the two \<open>if self.mother: ...\<close> blocks of \<open>_ancestor_distances\<close>: the parent is
  entered at \<open>offset + 1\<close>, then the parent's own dictionary is written over the result.
\<close>

definition visit_parent ::
  "(Person \<Rightarrow> int \<Rightarrow> error + dict) \<Rightarrow> store \<Rightarrow> nat option \<Rightarrow> int \<Rightarrow> dict \<Rightarrow> error + dict" where
  "visit_parent walk g link offset ancestors =
     (case link of
        None \<Rightarrow> Inr ancestors
      | Some i \<Rightarrow>
          (case fetch g i of
             Inl e \<Rightarrow> Inl e
           | Inr parent \<Rightarrow>
               (case walk parent (offset + 1) of
                  Inl e \<Rightarrow> Inl e
                | Inr d \<Rightarrow> Inr (AList.merge (AList.update i (offset + 1) ancestors) d))))"

text \<open>
  \<open>_ancestor_distances\<close> (a name cannot start with an underscore here), with the same
  account of stack frames as \<open>descendants\<close>.
\<close>

fun ancestor_distances :: "nat \<Rightarrow> store \<Rightarrow> Person \<Rightarrow> int \<Rightarrow> error + dict" where
  "ancestor_distances 0 g self offset = Inl RuntimeError"
| "ancestor_distances (Suc depth) g self offset =
     (case visit_parent (\<lambda>p k. ancestor_distances depth g p k) g (mother self) offset [] of
        Inl e \<Rightarrow> Inl e
      | Inr ancestors \<Rightarrow>
          visit_parent (\<lambda>p k. ancestor_distances depth g p k) g (father self) offset ancestors)"

text \<open>
  Looking a method of this type up on a Person by name: the class defines
  \<open>_ancestor_distances\<close>; neither it nor \<open>models.Model\<close> defines any other.
\<close>

definition getattr_Person ::
  "string \<Rightarrow> error + (nat \<Rightarrow> store \<Rightarrow> Person \<Rightarrow> int \<Rightarrow> error + dict)" where
  "getattr_Person name =
     (if name = ''_ancestor_distances'' then Inr ancestor_distances else Inl AttributeError)"

text \<open>
  \<open>ancestors\<close>: \<open>return self.ancestor_distances().keys()\<close>.
\<close>

definition ancestors :: "nat \<Rightarrow> store \<Rightarrow> Person \<Rightarrow> error + nat list" where
  "ancestors depth g self =
     (case getattr_Person ''ancestor_distances'' of
        Inl e \<Rightarrow> Inl e
      | Inr method \<Rightarrow>
          (case method depth g self 0 of Inl e \<Rightarrow> Inl e | Inr d \<Rightarrow> Inr (map fst d)))"

text \<open>
  \<open>p.father and p.mother\<close>, as a truth value: each link that is set is followed, the
  mother's only when the father's is set.
\<close>

definition father_and_mother :: "store \<Rightarrow> Person \<Rightarrow> error + bool" where
  "father_and_mother g p =
     (case father p of
        None \<Rightarrow> Inr False
      | Some f \<Rightarrow>
          (case fetch g f of
             Inl e \<Rightarrow> Inl e
           | Inr _ \<Rightarrow>
               (case mother p of
                  None \<Rightarrow> Inr False
                | Some m \<Rightarrow> (case fetch g m of Inl e \<Rightarrow> Inl e | Inr _ \<Rightarrow> Inr True))))"

text \<open>
  \<open>[p for p in ancestors if not (p.father and p.mother)]\<close>, over the keys of the
  dictionary; a key stands for the row it was loaded from.
\<close>

fun not_father_and_mother :: "store \<Rightarrow> nat list \<Rightarrow> error + Person list" where
  "not_father_and_mother g [] = Inr []"
| "not_father_and_mother g (i # rest) =
     (case fetch g i of
        Inl e \<Rightarrow> Inl e
      | Inr p \<Rightarrow>
          (case father_and_mother g p of
             Inl e \<Rightarrow> Inl e
           | Inr both \<Rightarrow>
               (case not_father_and_mother g rest of
                  Inl e \<Rightarrow> Inl e
                | Inr ps \<Rightarrow> Inr (if both then ps else p # ps))))"

text \<open>Line 117 of \<open>relatives\<close>: \<open>root_ancestors = [...] or [self]\<close>.\<close>

definition root_ancestors :: "store \<Rightarrow> Person \<Rightarrow> nat list \<Rightarrow> error + Person list" where
  "root_ancestors g self keys =
     (case not_father_and_mother g keys of
        Inl e \<Rightarrow> Inl e
      | Inr ps \<Rightarrow> Inr (if ps = [] then [self] else ps))"

text \<open>
  The loop \<open>for ancestor in root_ancestors: relatives.update(ancestor.descendants())\<close>
  on the \<open>Set\<close> of persons, a set of primary keys.
\<close>

fun update_each ::
  "(Person \<Rightarrow> error + Person list) \<Rightarrow> Person list \<Rightarrow> nat set \<Rightarrow> error + nat set" where
  "update_each f [] relatives = Inr relatives"
| "update_each f (ancestor # rest) relatives =
     (case f ancestor of
        Inl e \<Rightarrow> Inl e
      | Inr ds \<Rightarrow> update_each f rest (relatives \<union> pk ` set ds))"

text \<open>
  Lines 117 to 125 of \<open>relatives\<close>, from the list \<open>keys\<close> held by the local variable
  \<open>ancestors\<close>. \<open>Set.remove\<close> raises \<open>KeyError\<close> for an element that is not there.
  \<open>describe_relative\<close> is imported from people/relations.py and is a parameter. The result
  is the set of the pairs of the list returned (its order is that of a hash table).
\<close>

definition relatives_from ::
  "(nat \<Rightarrow> nat \<Rightarrow> 'l) \<Rightarrow> nat \<Rightarrow> store \<Rightarrow> Person \<Rightarrow> nat list \<Rightarrow> error + (nat \<times> 'l) set" where
  "relatives_from describe_relative depth g self keys =
     (case root_ancestors g self keys of
        Inl e \<Rightarrow> Inl e
      | Inr roots \<Rightarrow>
          (case update_each (\<lambda>a. descendants depth g a) roots (pk ` set roots) of
             Inl e \<Rightarrow> Inl e
           | Inr relatives \<Rightarrow>
               if pk self \<in> relatives
               then Inr ((\<lambda>r. (r, describe_relative (pk self) r)) ` (relatives - {pk self}))
               else Inl KeyError))"

text \<open>\<open>relatives\<close>: line 113, \<open>ancestors = self.ancestors()\<close>, then the rest.\<close>

definition relatives ::
  "(nat \<Rightarrow> nat \<Rightarrow> 'l) \<Rightarrow> nat \<Rightarrow> store \<Rightarrow> Person \<Rightarrow> error + (nat \<times> 'l) set" where
  "relatives describe_relative depth g self =
     (case ancestors depth g self of
        Inl e \<Rightarrow> Inl e
      | Inr keys \<Rightarrow> relatives_from describe_relative depth g self keys)"

text \<open>
  \<open>clean\<close>: raises or returns; the person is returned as it is left.
\<close>

definition clean :: "Person \<Rightarrow> error + Person" where
  "clean self =
     (if date_of_death self \<noteq> None \<and> \<not> deceased self then Inl ValidationError else Inr self)"

section \<open>The specification's reading of age\<close>

text \<open>
  The age as the specification words it: unknown without a birth date, or for a deceased
  person without a death date; otherwise the difference of the years from the birth date
  to the death date (deceased) or to today (living), less one when the anniversary of
  the birth has not yet occurred in the end year.
\<close>

definition anniversary_not_yet :: "date \<Rightarrow> date \<Rightarrow> bool" where
  "anniversary_not_yet birth end_date = ((month end_date, day end_date) < (month birth, day birth))"

definition age_spec :: "date \<Rightarrow> Person \<Rightarrow> int option" where
  "age_spec today self =
     (if date_of_birth self = None \<or> (deceased self \<and> date_of_death self = None) then None
      else let birth = the (date_of_birth self);
               end_date = (if deceased self then the (date_of_death self) else today)
           in Some (year end_date - year birth
                    - (if anniversary_not_yet birth end_date then 1 else 0)))"

section \<open>The specification's brute-force relatives\<close>

text \<open>Loading the rows of a list of keys.\<close>

fun fetch_each :: "store \<Rightarrow> nat list \<Rightarrow> error + Person list" where
  "fetch_each g [] = Inr []"
| "fetch_each g (i # rest) =
     (case fetch g i of
        Inl e \<Rightarrow> Inl e
      | Inr p \<Rightarrow> (case fetch_each g rest of Inl e \<Rightarrow> Inl e | Inr ps \<Rightarrow> Inr (p # ps)))"

text \<open>
  The brute force the specification compares with (section 8): the union of every
  ancestor of the person together with every ancestor's full descendant set, minus the
  person.
\<close>

definition brute_force_relatives :: "nat \<Rightarrow> store \<Rightarrow> Person \<Rightarrow> nat list \<Rightarrow> error + nat set" where
  "brute_force_relatives depth g self keys =
     (case fetch_each g keys of
        Inl e \<Rightarrow> Inl e
      | Inr rows \<Rightarrow>
          (case update_each (\<lambda>a. descendants depth g a) rows (pk ` set rows) of
             Inl e \<Rightarrow> Inl e
           | Inr everyone \<Rightarrow> Inr (everyone - {pk self})))"

section \<open>The family graph\<close>

text \<open>
  The parent links between the rows of a store: \<open>(p, q)\<close> when \<open>q\<close> is the row that
  \<open>p.mother\<close> or \<open>p.father\<close> loads.
\<close>

definition parent_of :: "store \<Rightarrow> (Person \<times> Person) set" where
  "parent_of g =
     {(p, q). p \<in> set g \<and> (mother p = Some (pk q) \<or> father p = Some (pk q)) \<and> fetch g (pk q) = Inr q}"

text \<open>The links followed downwards: \<open>(p, c)\<close> when \<open>c\<close> is among \<open>p.children()\<close>.\<close>

definition child_of :: "store \<Rightarrow> (Person \<times> Person) set" where
  "child_of g = {(p, c). p \<in> set g \<and> c \<in> set (children g p)}"

text \<open>
  What the specification asks of a family graph (section 3): primary keys identify rows,
  every parent link leads to a row, a mother is female and a father is not (\<open>children\<close>
  takes every gender other than \<open>'F'\<close> as male), and nobody is their own ancestor.
\<close>

definition unique_pk :: "store \<Rightarrow> bool" where
  "unique_pk g = distinct (map pk g)"

definition links_resolve :: "store \<Rightarrow> bool" where
  "links_resolve g =
     (\<forall>p \<in> set g. \<forall>i \<in> set_option (mother p) \<union> set_option (father p). \<exists>q. fetch g i = Inr q)"

definition gender_consistent :: "store \<Rightarrow> bool" where
  "gender_consistent g =
     (\<forall>p \<in> set g.
        (\<forall>i \<in> set_option (mother p). \<forall>q. fetch g i = Inr q \<longrightarrow> gender q = CHR ''F'')
      \<and> (\<forall>i \<in> set_option (father p). \<forall>q. fetch g i = Inr q \<longrightarrow> gender q \<noteq> CHR ''F''))"

definition family_graph :: "store \<Rightarrow> bool" where
  "family_graph g =
     (unique_pk g \<and> links_resolve g \<and> gender_consistent g \<and> acyclic (parent_of g))"


section \<open>Sample families\<close>

text \<open>A row with the given key, gender, mother and father, living, without dates.\<close>

definition row :: "nat \<Rightarrow> char \<Rightarrow> nat option \<Rightarrow> nat option \<Rightarrow> Person" where
  "row i s m f =
     \<lparr>pk = i, gender = s, date_of_birth = None, date_of_death = None, deceased = False,
      mother = m, father = f\<rparr>"

text \<open>
  Karl has a daughter Maria and a son Ferdinand; Ferdinand's son Franz and Maria are the
  parents of Leopold. Karl is Leopold's grandfather through Maria and his
  great-grandfather through Franz.
\<close>

definition karl :: Person where "karl = row 5 (CHR ''M'') None None"
definition maria :: Person where "maria = row 2 (CHR ''F'') None (Some 5)"
definition ferdinand :: Person where "ferdinand = row 4 (CHR ''M'') None (Some 5)"
definition franz :: Person where "franz = row 3 (CHR ''M'') None (Some 4)"
definition leopold :: Person where "leopold = row 1 (CHR ''M'') (Some 2) (Some 3)"

definition house :: store where
  "house = [leopold, maria, franz, ferdinand, karl]"

text \<open>A mother without recorded parents and her son.\<close>

definition anna :: Person where "anna = row 1 (CHR ''F'') None None"
definition paul :: Person where "paul = row 2 (CHR ''M'') (Some 1) None"

definition mother_and_son :: store where
  "mother_and_son = [anna, paul]"

text \<open>A malformed edit: a woman recorded as her own mother.\<close>

definition eve :: Person where "eve = row 1 (CHR ''F'') (Some 1) None"

definition own_mother :: store where
  "own_mother = [eve]"

text \<open>A stand-in for \<open>describe_relative\<close> that gives every pair the same label.\<close>

definition unlabelled :: "nat \<Rightarrow> nat \<Rightarrow> unit" where
  "unlabelled a b = ()"

text \<open>A living person born on 2000-06-15.\<close>

definition born_2000_06_15 :: Person where
  "born_2000_06_15 =
     \<lparr>pk = 1, gender = CHR ''F'',
      date_of_birth = Some \<lparr>year = 2000, month = 6, day = 15\<rparr>,
      date_of_death = None, deceased = False, mother = None, father = None\<rparr>"

section \<open>Properties\<close>

subsection \<open>Loading rows\<close>

lemma fetch_Inr_D: "fetch g i = Inr q \<Longrightarrow> q \<in> set g \<and> pk q = i"
  by (auto simp: fetch_def find_Some_iff split: option.splits) 

lemma fetch_Inl_D: "fetch g i = Inl e \<Longrightarrow> e = DoesNotExist"
  by (auto simp: fetch_def split: option.splits)

lemma fetch_unique: "distinct (map pk g) \<Longrightarrow> q \<in> set g \<Longrightarrow> fetch g (pk q) = Inr q"
proof (induction g)
  case Nil then show ?case by simp
next
  case (Cons a g)
  then show ?case by (auto simp: fetch_def)
qed

lemma visit_parent_Inr:
  assumes "visit_parent w g link off acc = Inr r"
  shows "(link = None \<and> r = acc)
       \<or> (\<exists>i q d. link = Some i \<and> fetch g i = Inr q \<and> w q (off + 1) = Inr d
            \<and> r = AList.merge (AList.update i (off + 1) acc) d)"
  using assms by (auto simp: visit_parent_def split: option.splits sum.splits)

lemma visit_parent_Inl:
  assumes "visit_parent w g link off acc = Inl e"
  shows "\<exists>i. link = Some i \<and> (fetch g i = Inl e \<or> (\<exists>q. fetch g i = Inr q \<and> w q (off + 1) = Inl e))"
  using assms by (auto simp: visit_parent_def split: option.splits sum.splits)

lemma walk_error: "ancestor_distances n g p off = Inl e \<Longrightarrow> e = RuntimeError \<or> e = DoesNotExist"
proof (induction n arbitrary: p off e)
  case 0 then show ?case by simp
next
  case (Suc n)
  then show ?case
    by (auto split: sum.splits dest!: visit_parent_Inl fetch_Inl_D)
qed

lemma walk_parent:
  assumes "ancestor_distances (Suc n) g p off = Inr d"
    and "mother p = Some i \<or> father p = Some i"
  shows "\<exists>q d'. fetch g i = Inr q \<and> ancestor_distances n g q (off + 1) = Inr d'"
  using assms by (auto split: sum.splits dest!: visit_parent_Inr)


lemma trancl_image_unfold: "R\<^sup>+ `` {p} = (\<Union>q \<in> R `` {p}. insert q (R\<^sup>+ `` {q}))"
proof (intro equalityI subsetI)
  fix x assume "x \<in> R\<^sup>+ `` {p}"
  then have "(p, x) \<in> R\<^sup>+" by simp
  then show "x \<in> (\<Union>q \<in> R `` {p}. insert q (R\<^sup>+ `` {q}))"
    by (cases rule: converse_tranclE) auto
next
  fix x assume "x \<in> (\<Union>q \<in> R `` {p}. insert q (R\<^sup>+ `` {q}))"
  then obtain q where "(p, q) \<in> R" and "x = q \<or> (q, x) \<in> R\<^sup>+" by auto
  then have "(p, x) \<in> R\<^sup>+" by (auto intro: trancl_into_trancl2)
  then show "x \<in> R\<^sup>+ `` {p}" by simp
qed

lemma parent_of_image:
  "p \<in> set g \<Longrightarrow>
   parent_of g `` {p} = {q. (mother p = Some (pk q) \<or> father p = Some (pk q)) \<and> fetch g (pk q) = Inr q}"
  by (auto simp: parent_of_def)

lemma visit_parent_keys:
  assumes "visit_parent w g link off acc = Inr r"
    and "\<And>q d. w q (off + 1) = Inr d \<Longrightarrow> q \<in> set g \<Longrightarrow> fst ` set d = pk ` (R\<^sup>+ `` {q})"
  shows "fst ` set r = fst ` set acc
           \<union> pk ` (\<Union>q \<in> {q. link = Some (pk q) \<and> fetch g (pk q) = Inr q}. insert q (R\<^sup>+ `` {q}))"
proof -
  from visit_parent_Inr [OF assms(1)] show ?thesis
  proof (elim disjE conjE exE)
    assume "link = None" "r = acc"
    then show ?thesis by simp
  next
    fix i q d
    assume h: "link = Some i" "fetch g i = Inr q" "w q (off + 1) = Inr d"
      "r = AList.merge (AList.update i (off + 1) acc) d"
    from h(2) have q: "q \<in> set g" "pk q = i" by (auto dest: fetch_Inr_D)
    from assms(2) [OF h(3) q(1)] have d: "fst ` set d = pk ` (R\<^sup>+ `` {q})" .
    have "{q'. link = Some (pk q') \<and> fetch g (pk q') = Inr q'} = {q}"
    proof (intro equalityI subsetI)
      fix x assume "x \<in> {q'. link = Some (pk q') \<and> fetch g (pk q') = Inr q'}"
      then have "pk x = i" and "fetch g (pk x) = Inr x" using h(1) by simp_all
      with h(2) show "x \<in> {q}" by simp
    next
      fix x assume "x \<in> {q}"
      with h(1,2) q(2) show "x \<in> {q'. link = Some (pk q') \<and> fetch g (pk q') = Inr q'}" by simp
    qed
    moreover have "fst ` set r = insert i (fst ` set acc) \<union> pk ` (R\<^sup>+ `` {q})"
      unfolding h(4) dom_merge dom_update d by simp
    ultimately show ?thesis
      using q(2) by auto
  qed
qed

lemma walk_keys:
  "p \<in> set g \<Longrightarrow> ancestor_distances n g p off = Inr d \<Longrightarrow>
   fst ` set d = pk ` ((parent_of g)\<^sup>+ `` {p})"
proof (induction n arbitrary: p off d)
  case 0 then show ?case by simp
next
  case (Suc n)
  let ?w = "\<lambda>p k. ancestor_distances n g p k"
  from Suc.prems(2) obtain dm where
    m: "visit_parent ?w g (mother p) off [] = Inr dm" and
    f: "visit_parent ?w g (father p) off dm = Inr d"
    by (auto split: sum.splits)
  have ih: "\<And>q d. ?w q (off + 1) = Inr d \<Longrightarrow> q \<in> set g \<Longrightarrow> fst ` set d = pk ` ((parent_of g)\<^sup>+ `` {q})"
    using Suc.IH by blast
  have km: "fst ` set dm = pk ` (\<Union>q \<in> {q. mother p = Some (pk q) \<and> fetch g (pk q) = Inr q}. insert q ((parent_of g)\<^sup>+ `` {q}))"
    using visit_parent_keys [OF m ih] by simp
  have kf: "fst ` set d = fst ` set dm \<union> pk ` (\<Union>q \<in> {q. father p = Some (pk q) \<and> fetch g (pk q) = Inr q}. insert q ((parent_of g)\<^sup>+ `` {q}))"
    using visit_parent_keys [OF f ih] by simp
  have split: "parent_of g `` {p} = {q. mother p = Some (pk q) \<and> fetch g (pk q) = Inr q} \<union> {q. father p = Some (pk q) \<and> fetch g (pk q) = Inr q}"
    using parent_of_image [OF Suc.prems(1)] by auto
  show ?case
    unfolding trancl_image_unfold [of "parent_of g" p] split kf km
    by (simp add: image_Un)
qed

lemma walk_own_ancestor:
  "(p, p) \<in> (parent_of g)\<^sup>+ \<Longrightarrow> ancestor_distances n g p off \<noteq> Inr d"
proof (induction n arbitrary: p off d)
  case 0 then show ?case by simp
next
  case (Suc n)
  from Suc.prems obtain q where pq: "(p, q) \<in> parent_of g" and qp: "(q, p) \<in> (parent_of g)\<^sup>*"
    by (auto dest: tranclD)
  then have qq: "(q, q) \<in> (parent_of g)\<^sup>+" by (rule rtrancl_into_trancl1[rotated]) 
  show ?case
  proof
    assume r: "ancestor_distances (Suc n) g p off = Inr d"
    from pq have "mother p = Some (pk q) \<or> father p = Some (pk q)" and fq: "fetch g (pk q) = Inr q"
      by (auto simp: parent_of_def)
    from walk_parent [OF r this(1)] fq obtain d' where "ancestor_distances n g q (off + 1) = Inr d'"
      by auto
    with Suc.IH [OF qq] show False by blast
  qed
qed


lemma extend_each_Inr:
  "extend_each f cs acc = Inr r \<Longrightarrow>
   (\<forall>c \<in> set cs. \<exists>ds. f c = Inr ds) \<and> r = acc @ concat (map (\<lambda>c. projr (f c)) cs)"
proof (induction cs arbitrary: acc)
  case Nil then show ?case by simp
next
  case (Cons c cs)
  from Cons.prems obtain x where x: "f c = Inr x" and rest: "extend_each f cs (acc @ x) = Inr r"
    by (auto split: sum.splits)
  from Cons.IH [OF rest] x show ?case by simp
qed

lemma extend_each_returns:
  "\<forall>c \<in> set cs. \<exists>ds. f c = Inr ds \<Longrightarrow>
   extend_each f cs acc = Inr (acc @ concat (map (\<lambda>c. projr (f c)) cs))"
proof (induction cs arbitrary: acc)
  case Nil then show ?case by simp
next
  case (Cons c cs)
  then show ?case by (auto split: sum.splits)
qed

lemma extend_each_Inl: "extend_each f cs acc = Inl e \<Longrightarrow> \<exists>c \<in> set cs. f c = Inl e"
proof (induction cs arbitrary: acc)
  case Nil then show ?case by simp
next
  case (Cons c cs)
  then show ?case by (auto split: sum.splits)
qed

lemma set_children:
  "set (children g p) =
     {c \<in> set g. (if gender p = CHR ''F'' then mother c else father c) = Some (pk p)}"
  by (simp add: children_def order_by_date_of_birth_def)

lemma child_of_image: "p \<in> set g \<Longrightarrow> child_of g `` {p} = set (children g p)"
  by (auto simp: child_of_def)

lemma children_in_store: "c \<in> set (children g p) \<Longrightarrow> c \<in> set g"
  by (simp add: set_children)

lemma descendants_Suc_Inr:
  assumes "descendants (Suc n) g p = Inr ds"
  shows "(\<forall>c \<in> set (children g p). \<exists>dc. descendants n g c = Inr dc)
       \<and> ds = children g p @ concat (map (\<lambda>c. projr (descendants n g c)) (children g p))"
  using extend_each_Inr [of "\<lambda>c. descendants n g c" "children g p" "children g p" ds] assms
  by simp

lemma descendants_error: "descendants n g p = Inl e \<Longrightarrow> e = RuntimeError"
proof (induction n arbitrary: p e)
  case 0 then show ?case by simp
next
  case (Suc n)
  then show ?case by (auto dest!: extend_each_Inl)
qed

lemma descendants_set:
  "p \<in> set g \<Longrightarrow> descendants n g p = Inr ds \<Longrightarrow> set ds = (child_of g)\<^sup>+ `` {p}"
proof (induction n arbitrary: p ds)
  case 0 then show ?case by simp
next
  case (Suc n)
  note step = descendants_Suc_Inr [OF Suc.prems(2)]
  have sub: "set (projr (descendants n g c)) = (child_of g)\<^sup>+ `` {c}"
    if "c \<in> set (children g p)" for c
  proof -
    from step that obtain dc where dc: "descendants n g c = Inr dc" by blast
    from Suc.IH [OF children_in_store [OF that] dc] dc show ?thesis by simp
  qed
  have "set ds = set (children g p) \<union> (\<Union>c \<in> set (children g p). set (projr (descendants n g c)))"
    using step by auto
  also have "\<dots> = (\<Union>c \<in> set (children g p). insert c ((child_of g)\<^sup>+ `` {c}))"
    using sub by auto
  also have "\<dots> = (child_of g)\<^sup>+ `` {p}"
    unfolding trancl_image_unfold [of "child_of g" p] child_of_image [OF Suc.prems(1)] ..
  finally show ?case .
qed

lemma descendants_own_descendant:
  "(p, p) \<in> (child_of g)\<^sup>+ \<Longrightarrow> descendants n g p \<noteq> Inr ds"
proof (induction n arbitrary: p ds)
  case 0 then show ?case by simp
next
  case (Suc n)
  from Suc.prems obtain c where pc: "(p, c) \<in> child_of g" and cp: "(c, p) \<in> (child_of g)\<^sup>*"
    by (auto dest: tranclD)
  then have cc: "(c, c) \<in> (child_of g)\<^sup>+" by (rule rtrancl_into_trancl1[rotated])
  show ?case
  proof
    assume r: "descendants (Suc n) g p = Inr ds"
    from pc have "c \<in> set (children g p)" by (simp add: child_of_def)
    with descendants_Suc_Inr [OF r] obtain dc where "descendants n g c = Inr dc" by blast
    with Suc.IH [OF cc] show False by blast
  qed
qed

lemma walk_mono_Suc:
  "ancestor_distances n g p off = Inr d \<Longrightarrow> ancestor_distances (Suc n) g p off = Inr d"
proof (induction n arbitrary: p off d)
  case 0 then show ?case by simp
next
  case (Suc n)
  let ?w = "\<lambda>p k. ancestor_distances n g p k"
  let ?w' = "\<lambda>p k. ancestor_distances (Suc n) g p k"
  have lift: "visit_parent ?w' g link off acc = Inr r" if "visit_parent ?w g link off acc = Inr r"
    for link acc r
    using visit_parent_Inr [OF that] Suc.IH
    by (auto simp: visit_parent_def)
  from Suc.prems obtain dm where
    m: "visit_parent ?w g (mother p) off [] = Inr dm" and
    f: "visit_parent ?w g (father p) off dm = Inr d"
    by (auto split: sum.splits)
  from lift [OF m] lift [OF f] show ?case
    by (simp del: ancestor_distances.simps add: ancestor_distances.simps(2) [of "Suc n"])
qed

lemma walk_mono:
  "ancestor_distances n g p off = Inr d \<Longrightarrow> n \<le> m \<Longrightarrow> ancestor_distances m g p off = Inr d"
proof (induction m)
  case 0 then show ?case by simp
next
  case (Suc m)
  show ?case
  proof (cases "n = Suc m")
    case True with Suc.prems show ?thesis by simp
  next
    case False
    with Suc.prems have "n \<le> m" by simp
    from walk_mono_Suc [OF Suc.IH [OF Suc.prems(1) this]] show ?thesis .
  qed
qed

lemma descendants_mono_Suc:
  "descendants n g p = Inr ds \<Longrightarrow> descendants (Suc n) g p = Inr ds"
proof (induction n arbitrary: p ds)
  case 0 then show ?case by simp
next
  case (Suc n)
  note step = descendants_Suc_Inr [OF Suc.prems]
  have same: "descendants (Suc n) g c = descendants n g c" if "c \<in> set (children g p)" for c
    using step that Suc.IH by fastforce
  then have all: "\<forall>c \<in> set (children g p). \<exists>dc. descendants (Suc n) g c = Inr dc"
    using step by simp
  have "descendants (Suc (Suc n)) g p =
        Inr (children g p @ concat (map (\<lambda>c. projr (descendants (Suc n) g c)) (children g p)))"
    using extend_each_returns [OF all, of "children g p"]
    by (simp del: descendants.simps add: descendants.simps(2) [of "Suc n"])
  also have "map (\<lambda>c. projr (descendants (Suc n) g c)) (children g p)
           = map (\<lambda>c. projr (descendants n g c)) (children g p)"
    using same by (intro map_cong) simp_all
  finally show ?case using step by simp
qed

lemma descendants_mono:
  "descendants n g p = Inr ds \<Longrightarrow> n \<le> m \<Longrightarrow> descendants m g p = Inr ds"
proof (induction m)
  case 0 then show ?case by simp
next
  case (Suc m)
  show ?case
  proof (cases "n = Suc m")
    case True with Suc.prems show ?thesis by simp
  next
    case False
    with Suc.prems have "n \<le> m" by simp
    from descendants_mono_Suc [OF Suc.IH [OF Suc.prems(1) this]] show ?thesis .
  qed
qed


subsection \<open>Family graphs: the walks return\<close>

lemma parent_of_subset: "parent_of g \<subseteq> set g \<times> set g"
  by (auto simp: parent_of_def dest: fetch_Inr_D)

lemma child_of_subset: "child_of g \<subseteq> set g \<times> set g"
  by (auto simp: child_of_def dest: children_in_store)

lemma finite_parent_of: "finite (parent_of g)"
  by (rule finite_subset [OF parent_of_subset]) simp

lemma finite_child_of: "finite (child_of g)"
  by (rule finite_subset [OF child_of_subset]) simp

lemma links_resolveD:
  assumes "links_resolve g" "p \<in> set g" "mother p = Some i \<or> father p = Some i"
  shows "\<exists>q. fetch g i = Inr q"
proof -
  from assms(3) have "i \<in> set_option (mother p) \<union> set_option (father p)"
    by auto
  with assms(1,2) show ?thesis unfolding links_resolve_def by blast
qed

lemma gender_consistentD:
  assumes "gender_consistent g" "c \<in> set g" "fetch g i = Inr q"
  shows "mother c = Some i \<Longrightarrow> gender q = CHR ''F''"
    and "father c = Some i \<Longrightarrow> gender q \<noteq> CHR ''F''"
proof -
  assume "mother c = Some i"
  then have "i \<in> set_option (mother c)" by simp
  with assms show "gender q = CHR ''F''" unfolding gender_consistent_def by blast
next
  assume "father c = Some i"
  then have "i \<in> set_option (father c)" by simp
  with assms show "gender q \<noteq> CHR ''F''" unfolding gender_consistent_def by blast
qed

lemma child_of_converse:
  assumes "unique_pk g" "gender_consistent g"
  shows "child_of g = (parent_of g)\<inverse>"
proof (intro equalityI subsetI)
  fix x assume "x \<in> child_of g"
  then obtain p c where x: "x = (p, c)" and p: "p \<in> set g" and c: "c \<in> set (children g p)"
    by (auto simp: child_of_def)
  from p assms(1) have "fetch g (pk p) = Inr p" by (simp add: unique_pk_def fetch_unique)
  moreover from c have "c \<in> set g" "mother c = Some (pk p) \<or> father c = Some (pk p)"
    by (auto simp: set_children split: if_splits)
  ultimately show "x \<in> (parent_of g)\<inverse>" using x by (simp add: parent_of_def)
next
  fix x assume "x \<in> (parent_of g)\<inverse>"
  then obtain p c where x: "x = (p, c)" and c: "c \<in> set g"
    and l: "mother c = Some (pk p) \<or> father c = Some (pk p)" and f: "fetch g (pk p) = Inr p"
    by (auto simp: parent_of_def)
  from f have p: "p \<in> set g" by (simp add: fetch_Inr_D)
  from l have "(if gender p = CHR ''F'' then mother c else father c) = Some (pk p)"
  proof
    assume m: "mother c = Some (pk p)"
    from gender_consistentD(1) [OF assms(2) c f m] have "gender p = CHR ''F''" .
    with m show ?thesis by simp
  next
    assume m: "father c = Some (pk p)"
    from gender_consistentD(2) [OF assms(2) c f m] have "gender p \<noteq> CHR ''F''" .
    with m show ?thesis by simp
  qed
  with c p x show "x \<in> child_of g" by (simp add: child_of_def set_children)
qed

lemma visit_parent_returns:
  assumes "link = None \<or> (\<exists>q d. link = Some (pk q) \<and> fetch g (pk q) = Inr q \<and> w q (off + 1) = Inr d)"
  shows "\<exists>r. visit_parent w g link off acc = Inr r"
  using assms by (auto simp: visit_parent_def)

lemma walk_returns:
  assumes "links_resolve g" and "acyclic (parent_of g)" and "p \<in> set g"
  shows "\<exists>N. \<forall>n \<ge> N. \<forall>off. \<exists>d. ancestor_distances n g p off = Inr d"
proof -
  have "wf ((parent_of g)\<inverse>)"
    using finite_parent_of assms(2) by (rule finite_acyclic_wf_converse)
  then show ?thesis using assms(3)
  proof (induction p rule: wf_induct_rule)
    case (less p)
    have side: "\<exists>N. \<forall>n \<ge> N. \<forall>off acc. \<exists>r.
        visit_parent (\<lambda>p k. ancestor_distances n g p k) g link off acc = Inr r"
      if "link = mother p \<or> link = father p" for link
    proof (cases link)
      case None
      then show ?thesis by (simp add: visit_parent_def)
    next
      case (Some i)
      with that have "mother p = Some i \<or> father p = Some i" by auto
      from links_resolveD [OF assms(1) less.prems this] obtain q where q: "fetch g i = Inr q" ..
      then have qi: "pk q = i" and qg: "q \<in> set g" by (simp_all add: fetch_Inr_D)
      from that Some q qi less.prems have "(p, q) \<in> parent_of g"
        by (auto simp: parent_of_def)
      then have "(q, p) \<in> (parent_of g)\<inverse>" by simp
      from less.IH [OF this qg] obtain N where
        N: "\<forall>n \<ge> N. \<forall>off. \<exists>d. ancestor_distances n g q off = Inr d" by blast
      have "\<exists>r. visit_parent (\<lambda>p k. ancestor_distances n g p k) g link off acc = Inr r"
        if "n \<ge> N" for n off acc
      proof -
        from N that obtain d where "ancestor_distances n g q (off + 1) = Inr d" by blast
        with Some q qi show ?thesis by (auto simp: visit_parent_def)
      qed
      then show ?thesis by blast
    qed
    from side [of "mother p"] obtain Nm where
      Nm: "\<forall>n \<ge> Nm. \<forall>off acc. \<exists>r. visit_parent (\<lambda>p k. ancestor_distances n g p k) g (mother p) off acc = Inr r"
      by blast
    from side [of "father p"] obtain Nf where
      Nf: "\<forall>n \<ge> Nf. \<forall>off acc. \<exists>r. visit_parent (\<lambda>p k. ancestor_distances n g p k) g (father p) off acc = Inr r"
      by blast
    have "\<exists>d. ancestor_distances n g p off = Inr d" if "n \<ge> Suc (max Nm Nf)" for n off
    proof -
      from that obtain n' where n: "n = Suc n'" and n': "n' \<ge> Nm" "n' \<ge> Nf"
        by (cases n) auto
      from Nm n'(1) obtain dm where
        dm: "visit_parent (\<lambda>p k. ancestor_distances n' g p k) g (mother p) off [] = Inr dm" by blast
      from Nf n'(2) obtain d where
        "visit_parent (\<lambda>p k. ancestor_distances n' g p k) g (father p) off dm = Inr d" by blast
      with dm n show ?thesis by simp
    qed
    then show ?case by blast
  qed
qed

lemma descendants_return:
  assumes "acyclic (child_of g)" and "p \<in> set g"
  shows "\<exists>N. \<forall>n \<ge> N. \<exists>ds. descendants n g p = Inr ds"
proof -
  have "wf ((child_of g)\<inverse>)"
    using finite_child_of assms(1) by (rule finite_acyclic_wf_converse)
  then show ?thesis using assms(2)
  proof (induction p rule: wf_induct_rule)
    case (less p)
    have "\<forall>c \<in> set (children g p). \<exists>N. \<forall>n \<ge> N. \<exists>ds. descendants n g c = Inr ds"
    proof
      fix c assume c: "c \<in> set (children g p)"
      with less.prems have "(c, p) \<in> (child_of g)\<inverse>" by (simp add: child_of_def)
      from less.IH [OF this children_in_store [OF c]]
      show "\<exists>N. \<forall>n \<ge> N. \<exists>ds. descendants n g c = Inr ds" .
    qed
    then obtain f where f: "\<forall>c \<in> set (children g p). \<forall>n \<ge> f c. \<exists>ds. descendants n g c = Inr ds"
      by metis
    define N where "N = Suc (Max (insert 0 (f ` set (children g p))))"
    have "\<exists>ds. descendants n g p = Inr ds" if "n \<ge> N" for n
    proof -
      from that obtain n' where n: "n = Suc n'" and n': "n' \<ge> Max (insert 0 (f ` set (children g p)))"
        by (cases n) (auto simp: N_def)
      have "\<forall>c \<in> set (children g p). \<exists>ds. descendants n' g c = Inr ds"
      proof
        fix c assume c: "c \<in> set (children g p)"
        then have "f c \<le> Max (insert 0 (f ` set (children g p)))" by (intro Max_ge) auto
        with n' f c show "\<exists>ds. descendants n' g c = Inr ds" by (meson order_trans)
      qed
      from extend_each_returns [OF this, of "children g p"] n show ?thesis by simp
    qed
    then show ?case by blast
  qed
qed

subsection \<open>Lines 117 to 125 of relatives, taken alone\<close>

text \<open>
  \<open>relatives\<close> ends at line 113, where \<open>ancestors\<close> raises, so these lines never run.
  The lemmas of this subsection say what they compute from the keys of the ancestor
  walk.
\<close>

lemma father_and_mother_Inr:
  "father_and_mother g p = Inr b \<Longrightarrow> b = (father p \<noteq> None \<and> mother p \<noteq> None)"
  by (auto simp: father_and_mother_def split: option.splits sum.splits)

lemma not_father_and_mother_Inr:
  "not_father_and_mother g keys = Inr ps \<Longrightarrow>
   set ps = {p. \<exists>i \<in> set keys. fetch g i = Inr p \<and> (father p = None \<or> mother p = None)}"
proof (induction keys arbitrary: ps)
  case Nil then show ?case by simp
next
  case (Cons i keys)
  from Cons.prems obtain p b ps' where
    p: "fetch g i = Inr p" and b: "father_and_mother g p = Inr b" and
    r: "not_father_and_mother g keys = Inr ps'" and ps: "ps = (if b then ps' else p # ps')"
    by (auto split: sum.splits)
  from father_and_mother_Inr [OF b] have b': "b = (father p \<noteq> None \<and> mother p \<noteq> None)" .
  from Cons.IH [OF r] p b' ps show ?case by auto
qed

lemma update_each_returns:
  "\<forall>a \<in> set rows. \<exists>ds. f a = Inr ds \<Longrightarrow>
   update_each f rows S = Inr (S \<union> (\<Union>a \<in> set rows. pk ` set (projr (f a))))"
proof (induction rows arbitrary: S)
  case Nil then show ?case by simp
next
  case (Cons a rows)
  from Cons.prems obtain ds where ds: "f a = Inr ds" by auto
  from Cons.prems have "\<forall>a \<in> set rows. \<exists>ds. f a = Inr ds" by simp
  from Cons.IH [OF this, of "S \<union> pk ` set ds"] ds show ?case
    by (simp add: Un_assoc)
qed

lemma update_each_descendants:
  assumes "\<forall>a \<in> set rows. \<exists>ds. descendants n g a = Inr ds" and "set rows \<subseteq> set g"
  shows "update_each (\<lambda>a. descendants n g a) rows (pk ` set rows) =
         Inr (pk ` (set rows \<union> (child_of g)\<^sup>+ `` set rows))"
proof -
  have "set (projr (descendants n g a)) = (child_of g)\<^sup>+ `` {a}" if "a \<in> set rows" for a
  proof -
    from assms(1) that obtain ds where ds: "descendants n g a = Inr ds" by blast
    from that assms(2) have "a \<in> set g" by blast
    from descendants_set [OF this ds] ds show ?thesis by simp
  qed
  then have "(\<Union>a \<in> set rows. pk ` set (projr (descendants n g a)))
           = pk ` ((child_of g)\<^sup>+ `` set rows)"
    by (auto simp: image_iff Image_def) 
  with update_each_returns [OF assms(1), of "pk ` set rows"] show ?thesis
    by (simp add: image_Un)
qed

lemma father_and_mother_returns:
  assumes "links_resolve g" and "p \<in> set g"
  shows "\<exists>b. father_and_mother g p = Inr b"
proof (cases "father p")
  case None then show ?thesis by (auto simp: father_and_mother_def)
next
  case f: (Some i)
  from links_resolveD [OF assms] f obtain q where q: "fetch g i = Inr q" by blast
  show ?thesis
  proof (cases "mother p")
    case None with f q show ?thesis by (auto simp: father_and_mother_def)
  next
    case (Some j)
    from links_resolveD [OF assms] Some obtain r where "fetch g j = Inr r" by blast
    with f q Some show ?thesis by (auto simp: father_and_mother_def)
  qed
qed

lemma not_father_and_mother_returns:
  assumes "links_resolve g" and "\<forall>i \<in> set keys. \<exists>q. fetch g i = Inr q"
  shows "\<exists>ps. not_father_and_mother g keys = Inr ps"
  using assms(2)
proof (induction keys)
  case Nil then show ?case by simp
next
  case (Cons i keys)
  from Cons.prems obtain q where q: "fetch g i = Inr q" by auto
  then have "q \<in> set g" by (simp add: fetch_Inr_D)
  from father_and_mother_returns [OF assms(1) this] obtain b where b: "father_and_mother g q = Inr b" ..
  from Cons obtain ps where "not_father_and_mother g keys = Inr ps" by auto
  with q b show ?case by simp
qed

lemma fetch_each_Inr:
  "fetch_each g keys = Inr rows \<Longrightarrow> set rows = {q. \<exists>i \<in> set keys. fetch g i = Inr q}"
proof (induction keys arbitrary: rows)
  case Nil then show ?case by simp
next
  case (Cons i keys)
  from Cons.prems obtain q rs where q: "fetch g i = Inr q" and rs: "fetch_each g keys = Inr rs"
    and rows: "rows = q # rs" by (auto split: sum.splits)
  from Cons.IH [OF rs] q rows show ?case by auto
qed

lemma fetch_each_returns:
  "\<forall>i \<in> set keys. \<exists>q. fetch g i = Inr q \<Longrightarrow> \<exists>rows. fetch_each g keys = Inr rows"
proof (induction keys)
  case Nil then show ?case by simp
next
  case (Cons i keys)
  then show ?case by (auto split: sum.splits)
qed

lemma ancestor_fetch: "(p, a) \<in> (parent_of g)\<^sup>+ \<Longrightarrow> fetch g (pk a) = Inr a"
  by (erule tranclE) (simp_all add: parent_of_def)

lemma rows_of_keys:
  assumes "p \<in> set g" and "ancestor_distances n g p off = Inr d"
  shows "{q. \<exists>i \<in> set (map fst d). fetch g i = Inr q} = (parent_of g)\<^sup>+ `` {p}"
proof (intro equalityI subsetI)
  fix q assume "q \<in> {q. \<exists>i \<in> set (map fst d). fetch g i = Inr q}"
  then obtain i where i: "i \<in> fst ` set d" and q: "fetch g i = Inr q" by auto
  from i walk_keys [OF assms] obtain a where a: "a \<in> (parent_of g)\<^sup>+ `` {p}" and "i = pk a"
    by auto
  with q ancestor_fetch [of p a g] have "q = a" by simp
  with a show "q \<in> (parent_of g)\<^sup>+ `` {p}" by simp
next
  fix a assume a: "a \<in> (parent_of g)\<^sup>+ `` {p}"
  then have "fetch g (pk a) = Inr a" by (simp add: ancestor_fetch)
  moreover from a walk_keys [OF assms] have "pk a \<in> set (map fst d)" by auto
  ultimately show "a \<in> {q. \<exists>i \<in> set (map fst d). fetch g i = Inr q}" by blast
qed


lemma descendants_return_all:
  assumes "acyclic (child_of g)"
  shows "\<exists>N. \<forall>n \<ge> N. \<forall>a \<in> set g. \<exists>ds. descendants n g a = Inr ds"
proof -
  have "\<forall>a \<in> set g. \<exists>N. \<forall>n \<ge> N. \<exists>ds. descendants n g a = Inr ds"
    using descendants_return [OF assms] by blast
  then obtain f where f: "\<forall>a \<in> set g. \<forall>n \<ge> f a. \<exists>ds. descendants n g a = Inr ds"
    by metis
  have "\<forall>n \<ge> Max (insert 0 (f ` set g)). \<forall>a \<in> set g. \<exists>ds. descendants n g a = Inr ds"
  proof (intro allI impI ballI)
    fix n a assume n: "n \<ge> Max (insert 0 (f ` set g))" and a: "a \<in> set g"
    then have "f a \<le> Max (insert 0 (f ` set g))" by (intro Max_ge) auto
    with n f a show "\<exists>ds. descendants n g a = Inr ds" by (meson order_trans)
  qed
  then show ?thesis ..
qed

lemma ancestor_has_root:
  assumes "links_resolve g" and "acyclic (parent_of g)" and "a \<in> set g"
  shows "\<exists>r. (a, r) \<in> (parent_of g)\<^sup>* \<and> (father r = None \<or> mother r = None)"
proof -
  have "wf ((parent_of g)\<inverse>)"
    using finite_parent_of assms(2) by (rule finite_acyclic_wf_converse)
  then show ?thesis using assms(3)
  proof (induction a rule: wf_induct_rule)
    case (less a)
    show ?case
    proof (cases "father a")
      case None
      then show ?thesis by blast
    next
      case (Some i)
      from links_resolveD [OF assms(1) less.prems] Some obtain q where q: "fetch g i = Inr q"
        by blast
      then have qi: "pk q = i" and qg: "q \<in> set g" by (simp_all add: fetch_Inr_D)
      from Some q qi less.prems have aq: "(a, q) \<in> parent_of g" by (simp add: parent_of_def)
      then have "(q, a) \<in> (parent_of g)\<inverse>" by simp
      from less.IH [OF this qg] obtain r where
        "(q, r) \<in> (parent_of g)\<^sup>*" and r: "father r = None \<or> mother r = None" by blast
      with aq have "(a, r) \<in> (parent_of g)\<^sup>*" by (meson converse_rtrancl_into_rtrancl)
      with r show ?thesis by blast
    qed
  qed
qed

lemma roots_cover:
  assumes root: "\<And>a. a \<in> R\<^sup>+ `` {s} \<Longrightarrow> \<exists>r. (a, r) \<in> R\<^sup>* \<and> lacks r"
    and ne: "R\<^sup>+ `` {s} \<noteq> {}"
  shows "{a \<in> R\<^sup>+ `` {s}. lacks a} \<union> (R\<inverse>)\<^sup>+ `` {a \<in> R\<^sup>+ `` {s}. lacks a}
           = R\<^sup>+ `` {s} \<union> (R\<inverse>)\<^sup>+ `` (R\<^sup>+ `` {s})"
    and "insert s ((R\<inverse>)\<^sup>+ `` {s}) \<subseteq> R\<^sup>+ `` {s} \<union> (R\<inverse>)\<^sup>+ `` (R\<^sup>+ `` {s})"
    and "\<exists>a \<in> R\<^sup>+ `` {s}. lacks a"
proof -
  have up: "\<exists>r. (s, r) \<in> R\<^sup>+ \<and> lacks r \<and> (x, r) \<in> R\<^sup>*" if "(s, a) \<in> R\<^sup>+" "(x, a) \<in> R\<^sup>*" for a x
  proof -
    from root [of a] that(1) obtain r where r: "(a, r) \<in> R\<^sup>*" "lacks r" by auto
    from that(1) r(1) have "(s, r) \<in> R\<^sup>+" by (rule trancl_rtrancl_trancl)
    moreover from that(2) r(1) have "(x, r) \<in> R\<^sup>*" by (rule rtrancl_trans)
    ultimately show ?thesis using r(2) by blast
  qed
  show "{a \<in> R\<^sup>+ `` {s}. lacks a} \<union> (R\<inverse>)\<^sup>+ `` {a \<in> R\<^sup>+ `` {s}. lacks a}
           = R\<^sup>+ `` {s} \<union> (R\<inverse>)\<^sup>+ `` (R\<^sup>+ `` {s})" (is "?X = ?Y")
  proof (intro equalityI subsetI)
    fix x assume "x \<in> ?X" then show "x \<in> ?Y" by auto
  next
    fix x assume "x \<in> ?Y"
    then obtain a where a: "(s, a) \<in> R\<^sup>+" and xa: "(x, a) \<in> R\<^sup>*"
      by (auto simp: trancl_converse dest: trancl_into_rtrancl)
    from up [OF a xa] obtain r where r: "(s, r) \<in> R\<^sup>+" "lacks r" "(x, r) \<in> R\<^sup>*" by blast
    from r(3) have "x = r \<or> (x, r) \<in> R\<^sup>+" by (auto simp: rtrancl_eq_or_trancl)
    with r(1,2) show "x \<in> ?X" by (auto simp: trancl_converse)
  qed
  from ne obtain a where a: "(s, a) \<in> R\<^sup>+" by auto
  show "insert s ((R\<inverse>)\<^sup>+ `` {s}) \<subseteq> R\<^sup>+ `` {s} \<union> (R\<inverse>)\<^sup>+ `` (R\<^sup>+ `` {s})"
  proof
    fix x assume "x \<in> insert s ((R\<inverse>)\<^sup>+ `` {s})"
    then have "(x, s) \<in> R\<^sup>*" by (auto simp: trancl_converse)
    with a have "(x, a) \<in> R\<^sup>+" by (rule rtrancl_trancl_trancl[rotated]) 
    with a show "x \<in> R\<^sup>+ `` {s} \<union> (R\<inverse>)\<^sup>+ `` (R\<^sup>+ `` {s})"
      by (auto simp: trancl_converse)
  qed
  from up [OF a rtrancl_refl] show "\<exists>a \<in> R\<^sup>+ `` {s}. lacks a" by auto
qed


lemma ancestor_in_store: "(p, a) \<in> (parent_of g)\<^sup>+ \<Longrightarrow> a \<in> set g"
  using ancestor_fetch [of p a g] by (simp add: fetch_Inr_D)

lemma descendant_in_store: "(p, c) \<in> (child_of g)\<^sup>+ \<Longrightarrow> c \<in> set g"
  using trancl_subset_Sigma [OF child_of_subset, of g] by blast

lemma same_pk:
  "unique_pk g \<Longrightarrow> p \<in> set g \<Longrightarrow> q \<in> set g \<Longrightarrow> pk p = pk q \<Longrightarrow> p = q"
  by (auto simp: unique_pk_def distinct_map dest: inj_onD)

lemma self_not_key:
  assumes "unique_pk g" and "self \<in> set g" and "ancestor_distances n g self off = Inr d"
  shows "pk self \<notin> fst ` set d"
proof
  assume "pk self \<in> fst ` set d"
  with walk_keys [OF assms(2,3)] obtain a where a: "(self, a) \<in> (parent_of g)\<^sup>+"
    and "pk self = pk a" by auto
  with same_pk [OF assms(1,2) ancestor_in_store [OF a]] have "a = self" by simp
  with a walk_own_ancestor [of self g n off d] assms(3) show False by simp
qed

lemma self_not_descendant:
  assumes "unique_pk g" and "self \<in> set g" and "descendants n g self = Inr ds"
  shows "pk self \<notin> pk ` set ds"
proof
  assume "pk self \<in> pk ` set ds"
  with descendants_set [OF assms(2,3)] obtain c where c: "(self, c) \<in> (child_of g)\<^sup>+"
    and "pk self = pk c" by auto
  with same_pk [OF assms(1,2) descendant_in_store [OF c]] have "c = self" by simp
  with c descendants_own_descendant [of self g n ds] assms(3) show False by simp
qed

lemma relatives_from_without_self:
  "relatives_from describe depth g self keys = Inr rs \<Longrightarrow> pk self \<notin> fst ` rs"
  by (auto simp: relatives_from_def split: sum.splits if_splits)

lemma root_ancestors_Inr:
  assumes "root_ancestors g self keys = Inr roots"
  shows "set roots =
     (if \<exists>i \<in> set keys. \<exists>p. fetch g i = Inr p \<and> (father p = None \<or> mother p = None)
      then {p. \<exists>i \<in> set keys. fetch g i = Inr p \<and> (father p = None \<or> mother p = None)}
      else {self})"
proof -
  from assms obtain ps where r: "not_father_and_mother g keys = Inr ps"
    and roots: "roots = (if ps = [] then [self] else ps)"
    by (auto simp: root_ancestors_def split: sum.splits)
  note s = not_father_and_mother_Inr [OF r]
  show ?thesis
  proof (cases "ps = []")
    case True
    with s roots show ?thesis by auto
  next
    case False
    then have "set ps \<noteq> {}" by simp
    with s roots False show ?thesis by auto
  qed
qed

lemma roots_of_walk:
  assumes l: "links_resolve g" and ac: "acyclic (parent_of g)" and self: "self \<in> set g"
    and d: "ancestor_distances n g self off = Inr d"
  shows "\<exists>roots. root_ancestors g self (map fst d) = Inr roots
           \<and> set roots = (if (parent_of g)\<^sup>+ `` {self} = {} then {self}
                           else {a \<in> (parent_of g)\<^sup>+ `` {self}. father a = None \<or> mother a = None})"
proof -
  let ?A = "(parent_of g)\<^sup>+ `` {self}"
  note rows = rows_of_keys [OF self d]
  have "\<forall>i \<in> set (map fst d). \<exists>q. fetch g i = Inr q"
  proof
    fix i assume "i \<in> set (map fst d)"
    with walk_keys [OF self d] obtain a where "a \<in> ?A" "i = pk a" by auto
    then show "\<exists>q. fetch g i = Inr q" using ancestor_fetch [of self a g] by auto
  qed
  from not_father_and_mother_returns [OF l this] obtain ps where
    ps: "not_father_and_mother g (map fst d) = Inr ps" ..
  then obtain roots where roots: "root_ancestors g self (map fst d) = Inr roots"
    by (simp add: root_ancestors_def)
  have lacking: "{p. \<exists>i \<in> set (map fst d). fetch g i = Inr p \<and> (father p = None \<or> mother p = None)}
        = {a \<in> ?A. father a = None \<or> mother a = None}"
  proof -
    have mem: "q \<in> {q. \<exists>i \<in> set (map fst d). fetch g i = Inr q} \<longleftrightarrow> q \<in> ?A" for q
      using rows by (simp only:)
    show ?thesis
    proof (intro equalityI subsetI)
      fix p assume p: "p \<in> {p. \<exists>i \<in> set (map fst d). fetch g i = Inr p \<and> (father p = None \<or> mother p = None)}"
      then have "p \<in> {q. \<exists>i \<in> set (map fst d). fetch g i = Inr q}" by blast
      moreover from p have "father p = None \<or> mother p = None" by auto
      ultimately show "p \<in> {a \<in> ?A. father a = None \<or> mother a = None}" using mem [of p] by blast
    next
      fix p assume "p \<in> {a \<in> ?A. father a = None \<or> mother a = None}"
      then have "p \<in> ?A" and l: "father p = None \<or> mother p = None" by simp_all
      with mem [of p] have "p \<in> {q. \<exists>i \<in> set (map fst d). fetch g i = Inr q}" by blast
      with l show "p \<in> {p. \<exists>i \<in> set (map fst d). fetch g i = Inr p \<and> (father p = None \<or> mother p = None)}"
        by blast
    qed
  qed
  have some: "\<exists>a \<in> ?A. father a = None \<or> mother a = None" if "?A \<noteq> {}"
  proof (rule roots_cover(3) [OF _ that])
    fix a assume "a \<in> ?A"
    then have "a \<in> set g" by (simp add: ancestor_in_store)
    from ancestor_has_root [OF l ac this]
    show "\<exists>r. (a, r) \<in> (parent_of g)\<^sup>* \<and> (father r = None \<or> mother r = None)" .
  qed
  have "set roots = (if ?A = {} then {self} else {a \<in> ?A. father a = None \<or> mother a = None})"
  proof (cases "?A = {}")
    case True
    with lacking have "\<not> (\<exists>i \<in> set (map fst d). \<exists>p. fetch g i = Inr p \<and> (father p = None \<or> mother p = None))"
      by blast
    with root_ancestors_Inr [OF roots] have "set roots = {self}" by (simp only: if_False)
    with True show ?thesis by simp
  next
    case False
    from some [OF False] lacking
    have "\<exists>i \<in> set (map fst d). \<exists>p. fetch g i = Inr p \<and> (father p = None \<or> mother p = None)"
      by blast
    with root_ancestors_Inr [OF roots] have "set roots =
        {p. \<exists>i \<in> set (map fst d). fetch g i = Inr p \<and> (father p = None \<or> mother p = None)}"
      by (simp only: if_True)
    with lacking False show ?thesis by (simp only: if_False)
  qed
  with roots show ?thesis by blast
qed

lemma relatives_from_value:
  assumes l: "links_resolve g" and ac: "acyclic (parent_of g)" and u: "unique_pk g"
    and gc: "gender_consistent g" and self: "self \<in> set g"
    and d: "ancestor_distances n g self off = Inr d"
    and all: "\<forall>a \<in> set g. \<exists>ds. descendants depth g a = Inr ds"
  shows "\<exists>roots. set roots = (if (parent_of g)\<^sup>+ `` {self} = {} then {self}
                           else {a \<in> (parent_of g)\<^sup>+ `` {self}. father a = None \<or> mother a = None})
         \<and> relatives_from describe depth g self (map fst d) =
             Inr ((\<lambda>r. (r, describe (pk self) r))
                    ` (pk ` (set roots \<union> (child_of g)\<^sup>+ `` set roots) - {pk self}))"
proof -
  let ?A = "(parent_of g)\<^sup>+ `` {self}"
  let ?lacks = "\<lambda>a. father a = None \<or> mother a = None"
  have C: "child_of g = (parent_of g)\<inverse>" using u gc by (rule child_of_converse)
  from roots_of_walk [OF l ac self d] obtain roots where
    r: "root_ancestors g self (map fst d) = Inr roots" and
    sr: "set roots = (if ?A = {} then {self} else {a \<in> ?A. ?lacks a})" by blast
  have sub: "set roots \<subseteq> set g"
  proof
    fix x assume "x \<in> set roots"
    with sr have "x = self \<or> (self, x) \<in> (parent_of g)\<^sup>+"
      by (cases "?A = {}") simp_all
    with self show "x \<in> set g" using ancestor_in_store [of self x g] by blast
  qed
  then have "\<forall>a \<in> set roots. \<exists>ds. descendants depth g a = Inr ds" using all by blast
  note upd0 = update_each_descendants [OF this sub]
  define X where "X = pk ` (set roots \<union> (child_of g)\<^sup>+ `` set roots)"
  from upd0 have upd: "update_each (\<lambda>a. descendants depth g a) roots (pk ` set roots) = Inr X"
    by (simp only: X_def)
  have "self \<in> set roots \<union> (child_of g)\<^sup>+ `` set roots"
  proof (cases "?A = {}")
    case True
    with sr show ?thesis by simp
  next
    case False
    have root: "\<exists>r. (a, r) \<in> (parent_of g)\<^sup>* \<and> ?lacks r" if "a \<in> ?A" for a
      using ancestor_has_root [OF l ac] that by (simp add: ancestor_in_store)
    have eq: "{a \<in> ?A. ?lacks a} \<union> ((parent_of g)\<inverse>)\<^sup>+ `` {a \<in> ?A. ?lacks a}
          = ?A \<union> ((parent_of g)\<inverse>)\<^sup>+ `` ?A"
      by (rule roots_cover(1) [of "parent_of g" self ?lacks]) (erule root, rule False)
    have "insert self (((parent_of g)\<inverse>)\<^sup>+ `` {self}) \<subseteq> ?A \<union> ((parent_of g)\<inverse>)\<^sup>+ `` ?A"
      by (rule roots_cover(2) [of "parent_of g" self ?lacks]) (erule root, rule False)
    then have "self \<in> ?A \<union> ((parent_of g)\<inverse>)\<^sup>+ `` ?A"
      by (rule subsetD) (rule insertI1)
    then have "self \<in> {a \<in> ?A. ?lacks a} \<union> ((parent_of g)\<inverse>)\<^sup>+ `` {a \<in> ?A. ?lacks a}"
      by (simp only: eq)
    moreover from False sr have "set roots = {a \<in> ?A. ?lacks a}" by (simp only: if_False)
    ultimately show ?thesis by (simp only: C)
  qed
  then have "pk self \<in> X" unfolding X_def by (rule imageI)
  with r upd have "relatives_from describe depth g self (map fst d) =
      Inr ((\<lambda>r. (r, describe (pk self) r)) ` (X - {pk self}))"
    by (simp add: relatives_from_def)
  with sr show ?thesis unfolding X_def by blast
qed


lemma brute_force_value:
  assumes self: "self \<in> set g"
    and d: "ancestor_distances n g self off = Inr d"
    and all: "\<forall>a \<in> set g. \<exists>ds. descendants depth g a = Inr ds"
  shows "brute_force_relatives depth g self (map fst d) =
           Inr (pk ` ((parent_of g)\<^sup>+ `` {self} \<union> (child_of g)\<^sup>+ `` ((parent_of g)\<^sup>+ `` {self}))
                - {pk self})"
proof -
  let ?A = "(parent_of g)\<^sup>+ `` {self}"
  have "\<forall>i \<in> set (map fst d). \<exists>q. fetch g i = Inr q"
  proof
    fix i assume "i \<in> set (map fst d)"
    with walk_keys [OF self d] obtain a where "a \<in> ?A" "i = pk a" by auto
    then show "\<exists>q. fetch g i = Inr q" using ancestor_fetch [of self a g] by auto
  qed
  from fetch_each_returns [OF this] obtain rows where rows: "fetch_each g (map fst d) = Inr rows" ..
  from fetch_each_Inr [OF rows] rows_of_keys [OF self d] have sr: "set rows = ?A" by (simp only:)
  have sub: "set rows \<subseteq> set g"
  proof
    fix x assume "x \<in> set rows"
    with sr have "(self, x) \<in> (parent_of g)\<^sup>+" by simp
    then show "x \<in> set g" by (rule ancestor_in_store)
  qed
  then have "\<forall>a \<in> set rows. \<exists>ds. descendants depth g a = Inr ds" using all by blast
  note upd0 = update_each_descendants [OF this sub]
  define X where "X = pk ` (set rows \<union> (child_of g)\<^sup>+ `` set rows)"
  from upd0 have upd: "update_each (\<lambda>a. descendants depth g a) rows (pk ` set rows) = Inr X"
    by (simp only: X_def)
  from rows upd have "brute_force_relatives depth g self (map fst d) = Inr (X - {pk self})"
    by (simp add: brute_force_relatives_def)
  then show ?thesis unfolding X_def sr .
qed

lemma fst_annotated: "fst ` ((\<lambda>r. (r, f r)) ` S) = S"
  by (auto simp: image_iff)

lemma family_relatives:
  assumes fg: "family_graph g" and self: "self \<in> set g"
  shows "\<exists>N. \<forall>depth \<ge> N. \<exists>d rs brute ds.
           ancestor_distances depth g self 0 = Inr d
         \<and> relatives_from describe_relative depth g self (map fst d) = Inr rs
         \<and> brute_force_relatives depth g self (map fst d) = Inr brute
         \<and> descendants depth g self = Inr ds
         \<and> fst ` rs = (brute \<union> pk ` set ds) - {pk self}
         \<and> (d \<noteq> [] \<longrightarrow> fst ` rs = brute)"
proof -
  let ?R = "parent_of g"
  let ?A = "?R\<^sup>+ `` {self}"
  let ?lacks = "\<lambda>a. father a = None \<or> mother a = None"
  from fg have u: "unique_pk g" and l: "links_resolve g" and gc: "gender_consistent g"
    and ac: "acyclic ?R" by (simp_all add: family_graph_def)
  have C: "child_of g = ?R\<inverse>" using u gc by (rule child_of_converse)
  have acC: "acyclic (child_of g)" using ac by (simp only: C acyclic_converse)
  from walk_returns [OF l ac self] obtain Nw where
    Nw: "\<forall>n \<ge> Nw. \<forall>off. \<exists>d. ancestor_distances n g self off = Inr d" ..
  from descendants_return_all [OF acC] obtain Nd where
    Nd: "\<forall>n \<ge> Nd. \<forall>a \<in> set g. \<exists>ds. descendants n g a = Inr ds" ..
  have "\<exists>d rs brute ds.
           ancestor_distances depth g self 0 = Inr d
         \<and> relatives_from describe_relative depth g self (map fst d) = Inr rs
         \<and> brute_force_relatives depth g self (map fst d) = Inr brute
         \<and> descendants depth g self = Inr ds
         \<and> fst ` rs = (brute \<union> pk ` set ds) - {pk self}
         \<and> (d \<noteq> [] \<longrightarrow> fst ` rs = brute)" if depth: "depth \<ge> max Nw Nd" for depth
  proof -
    from depth Nw obtain d where d: "ancestor_distances depth g self 0 = Inr d" by auto
    from depth Nd have all: "\<forall>a \<in> set g. \<exists>ds. descendants depth g a = Inr ds" by auto
    with self obtain ds where ds: "descendants depth g self = Inr ds" by blast
    note D = descendants_set [OF self ds]
    from relatives_from_value [OF l ac u gc self d all, of describe_relative]
    obtain roots where
      sr: "set roots = (if ?A = {} then {self} else {a \<in> ?A. ?lacks a})" and
      rel: "relatives_from describe_relative depth g self (map fst d) =
             Inr ((\<lambda>r. (r, describe_relative (pk self) r))
                    ` (pk ` (set roots \<union> (child_of g)\<^sup>+ `` set roots) - {pk self}))"
      by blast
    note brute = brute_force_value [OF self d all]
    define X where "X = set roots \<union> (child_of g)\<^sup>+ `` set roots"
    define Y where "Y = ?A \<union> (child_of g)\<^sup>+ `` ?A"
    have keys: "d \<noteq> [] \<longleftrightarrow> ?A \<noteq> {}"
      using walk_keys [OF self d] by auto
    have XY: "X = Y \<and> set ds \<subseteq> Y" if ne: "?A \<noteq> {}"
    proof -
      have root: "\<exists>r. (a, r) \<in> ?R\<^sup>* \<and> ?lacks r" if "a \<in> ?A" for a
        using ancestor_has_root [OF l ac] that by (simp add: ancestor_in_store)
      have eq: "{a \<in> ?A. ?lacks a} \<union> (?R\<inverse>)\<^sup>+ `` {a \<in> ?A. ?lacks a} = ?A \<union> (?R\<inverse>)\<^sup>+ `` ?A"
        by (rule roots_cover(1) [of ?R self ?lacks]) (erule root, rule ne)
      have "insert self ((?R\<inverse>)\<^sup>+ `` {self}) \<subseteq> ?A \<union> (?R\<inverse>)\<^sup>+ `` ?A"
        by (rule roots_cover(2) [of ?R self ?lacks]) (erule root, rule ne)
      then have "(child_of g)\<^sup>+ `` {self} \<subseteq> Y" unfolding Y_def C by blast
      moreover from ne sr have "set roots = {a \<in> ?A. ?lacks a}" by (simp only: if_False)
      then have "X = Y" unfolding X_def Y_def C using eq by (simp only:)
      ultimately show ?thesis using D by (simp only:) 
    qed
    have X0: "X = insert self (set ds)" if e: "?A = {}"
    proof -
      from e sr have "set roots = {self}" by simp
      then show ?thesis unfolding X_def D by simp
    qed
    have Y0: "Y = {}" if e: "?A = {}" unfolding Y_def e by simp
    have main: "pk ` X - {pk self} = ((pk ` Y - {pk self}) \<union> pk ` set ds) - {pk self}"
    proof (cases "?A = {}")
      case True
      show ?thesis unfolding X0 [OF True] Y0 [OF True] by auto
    next
      case False
      from XY [OF False] show ?thesis by auto
    qed
    have second: "d \<noteq> [] \<longrightarrow> pk ` X - {pk self} = pk ` Y - {pk self}"
      using keys XY by auto
    from rel have r1: "relatives_from describe_relative depth g self (map fst d) =
             Inr ((\<lambda>r. (r, describe_relative (pk self) r)) ` (pk ` X - {pk self}))"
      unfolding X_def .
    from brute have b1: "brute_force_relatives depth g self (map fst d) = Inr (pk ` Y - {pk self})"
      unfolding Y_def .
    show ?thesis
      apply (rule exI [of _ d])
      apply (rule exI [of _ "(\<lambda>r. (r, describe_relative (pk self) r)) ` (pk ` X - {pk self})"])
      apply (rule exI [of _ "pk ` Y - {pk self}"])
      apply (rule exI [of _ ds])
      using d r1 b1 ds main second by (simp only: fst_annotated simp_thms)
  qed
  then show ?thesis by blast
qed

subsection \<open>Descendants reached by one chain\<close>






subsection \<open>The sample families are family graphs\<close>

lemma house_family_graph: "family_graph house"
proof -
  have "acyclic (parent_of house)"
    by (rule acyclicI_order [where f = "\<lambda>p. 10 - pk p"])
       (auto simp: parent_of_def house_def leopold_def maria_def franz_def ferdinand_def
          karl_def row_def)
  moreover have "unique_pk house \<and> links_resolve house \<and> gender_consistent house"
    by (simp add: unique_pk_def links_resolve_def gender_consistent_def fetch_def house_def
        leopold_def maria_def franz_def ferdinand_def karl_def row_def)
  ultimately show ?thesis by (simp add: family_graph_def)
qed

lemma mother_and_son_family_graph: "family_graph mother_and_son"
proof -
  have "acyclic (parent_of mother_and_son)"
    by (rule acyclicI_order [where f = pk])
       (auto simp: parent_of_def mother_and_son_def anna_def paul_def row_def)
  moreover have "unique_pk mother_and_son \<and> links_resolve mother_and_son
      \<and> gender_consistent mother_and_son"
    by (simp add: unique_pk_def links_resolve_def gender_consistent_def fetch_def
        mother_and_son_def anna_def paul_def row_def)
  ultimately show ?thesis by (simp add: family_graph_def)
qed

subsection \<open>age\<close>

text \<open>
  C6. \<open>age\<close> is the specification's age: the years from the birth date to the death date
  of a deceased person or to today for a living one, less one before the anniversary,
  and \<open>None\<close> (no exception) without a birth date or for a deceased person without a death
  date. A living person born on 2000-06-15 is 19 on 2020-06-14 and 20 on 2020-06-15 and
  on 2020-12-31.
\<close>

theorem age_is_age_spec:
  "age today self = age_spec today self
   \<and> age \<lparr>year = 2020, month = 6, day = 14\<rparr> born_2000_06_15 = Some 19
   \<and> age \<lparr>year = 2020, month = 6, day = 15\<rparr> born_2000_06_15 = Some 20
   \<and> age \<lparr>year = 2020, month = 12, day = 31\<rparr> born_2000_06_15 = Some 20"
proof -
  have general: "age today self = age_spec today self"
    by (cases "date_of_birth self"; cases "date_of_death self")
       (auto simp: age_def age_spec_def anniversary_not_yet_def Let_def less_prod_def)
  have examples:
    "age \<lparr>year = 2020, month = 6, day = 14\<rparr> born_2000_06_15 = Some 19"
    "age \<lparr>year = 2020, month = 6, day = 15\<rparr> born_2000_06_15 = Some 20"
    "age \<lparr>year = 2020, month = 12, day = 31\<rparr> born_2000_06_15 = Some 20"
    by (simp_all add: age_def born_2000_06_15_def)
  from general examples show ?thesis by simp
qed

subsection \<open>clean\<close>

text \<open>
  C9. \<open>clean\<close> raises \<open>ValidationError\<close> exactly when a date of death is recorded while
  the deceased flag is false; otherwise it returns, and the person is unchanged.
\<close>

theorem clean_raises_iff:
  "(clean self = Inl ValidationError \<longleftrightarrow> date_of_death self \<noteq> None \<and> \<not> deceased self)
   \<and> (\<not> (date_of_death self \<noteq> None \<and> \<not> deceased self) \<longrightarrow> clean self = Inr self)"
  by (simp add: clean_def)

theorem clean_raises_iff_witness:
  "\<not> (date_of_death born_2000_06_15 \<noteq> None \<and> \<not> deceased born_2000_06_15)
   \<and> clean born_2000_06_15 = Inr born_2000_06_15
   \<and> clean (born_2000_06_15\<lparr>date_of_death := Some \<lparr>year = 2020, month = 1, day = 1\<rparr>\<rparr>)
       = Inl ValidationError"
  using clean_raises_iff [of born_2000_06_15]
    clean_raises_iff [of "born_2000_06_15\<lparr>date_of_death := Some \<lparr>year = 2020, month = 1, day = 1\<rparr>\<rparr>"]
  by (simp add: born_2000_06_15_def)

subsection \<open>siblings\<close>

text \<open>
  C10. A person with neither mother nor father recorded has no siblings: a null link
  matches no other person's null link.
\<close>

theorem siblings_without_parents:
  "mother self = None \<Longrightarrow> father self = None \<Longrightarrow> siblings g self = Inr []"
proof -
  assume "mother self = None" and "father self = None"
  moreover from this
  have "filter (\<lambda>p. pk p \<noteq> pk self
                  \<and> ((father p \<noteq> None \<and> father p = father self)
                     \<or> (mother p \<noteq> None \<and> mother p = mother self))) g = []"
    by (induction g) auto
  ultimately show ?thesis
    by (simp add: siblings_def follow_def order_by_date_of_birth_def)
qed

theorem siblings_without_parents_witness:
  "mother karl = None \<and> father karl = None
   \<and> siblings [karl, anna, maria, ferdinand] karl = Inr []
   \<and> map_sum id (map pk) (siblings [karl, anna, maria, ferdinand] maria) = Inr [4]"
proof -
  have m: "mother karl = None" and f: "father karl = None"
    by (simp_all add: karl_def row_def)
  have "map_sum id (map pk) (siblings [karl, anna, maria, ferdinand] maria) = Inr [4]"
    by code_simp
  with m f siblings_without_parents [OF m f, of "[karl, anna, maria, ferdinand]"]
  show ?thesis by simp
qed

subsection \<open>ancestors\<close>

text \<open>
  C5. \<open>ancestors\<close> never returns: it asks the person for \<open>ancestor_distances\<close>, which the
  class does not define (the walk is \<open>_ancestor_distances\<close>), so every call ends in
  \<open>AttributeError\<close>. For Leopold the walk itself returns four ancestors.
\<close>

theorem ancestors_raises_AttributeError:
  "ancestors depth g self = Inl AttributeError
   \<and> map_sum id (map fst) (ancestor_distances 10 house leopold 0) = Inr [2, 5, 3, 4]"
proof -
  have "ancestors depth g self = Inl AttributeError"
    by (simp add: ancestors_def getattr_Person_def)
  moreover have "map_sum id (map fst) (ancestor_distances 10 house leopold 0) = Inr [2, 5, 3, 4]"
    by code_simp
  ultimately show ?thesis by simp
qed

subsection \<open>The distances of the ancestor walk\<close>

text \<open>
  C1, at Leopold. Karl (key 5) is the father of Leopold's mother Maria, a chain of two
  links, and the walk records him at 3: the father's side is written after the mother's
  and overwrites the 2.
\<close>

theorem ancestor_distances_last_write:
  "mother leopold = Some (pk maria) \<and> father maria = Some (pk karl)
   \<and> fetch house (pk maria) = Inr maria \<and> fetch house (pk karl) = Inr karl
   \<and> ancestor_distances 10 house leopold 0 = Inr [(2, 1), (5, 3), (3, 1), (4, 2)]"
  by code_simp

subsection \<open>Cycles in the parent links\<close>

text \<open>
  C2, as stated, at the woman recorded as her own mother: with the 1000 frames of
  Python's default recursion limit both traversals use them all and end in the
  interpreter's \<open>RuntimeError\<close>; nothing detects the cycle.
\<close>

theorem own_mother_counterexample:
  "ancestor_distances 1000 own_mother eve 0 = Inl RuntimeError
   \<and> descendants 1000 own_mother eve = Inl RuntimeError"
  by code_simp

text \<open>
  C2, amended. When a person is their own ancestor through the parent links, the
  ancestor walk returns no dictionary whatever the recursion limit: it ends in
  \<open>RuntimeError\<close> (or in \<open>DoesNotExist\<close>, when a dangling link is met first). When a
  person is among their own descendants through \<open>children\<close>, \<open>descendants\<close> ends in
  \<open>RuntimeError\<close> whatever the limit; with unique keys and consistent genders that is
  the case of every person who is their own ancestor.
\<close>

theorem own_ancestor_never_returns:
  "((p, p) \<in> (parent_of g)\<^sup>+ \<longrightarrow>
      ancestor_distances depth g p offset = Inl RuntimeError
      \<or> ancestor_distances depth g p offset = Inl DoesNotExist)
   \<and> ((p, p) \<in> (child_of g)\<^sup>+ \<longrightarrow> descendants depth g p = Inl RuntimeError)
   \<and> (unique_pk g \<and> gender_consistent g \<and> (p, p) \<in> (parent_of g)\<^sup>+ \<longrightarrow>
        descendants depth g p = Inl RuntimeError)"
proof (intro conjI impI)
  assume "(p, p) \<in> (parent_of g)\<^sup>+"
  from walk_own_ancestor [OF this] obtain e where "ancestor_distances depth g p offset = Inl e"
    by (cases "ancestor_distances depth g p offset") auto
  with walk_error [OF this]
  show "ancestor_distances depth g p offset = Inl RuntimeError
      \<or> ancestor_distances depth g p offset = Inl DoesNotExist" by auto
next
  assume "(p, p) \<in> (child_of g)\<^sup>+"
  from descendants_own_descendant [OF this] obtain e where "descendants depth g p = Inl e"
    by (cases "descendants depth g p") auto
  with descendants_error [OF this]
  show "descendants depth g p = Inl RuntimeError" by simp
next
  assume a: "unique_pk g \<and> gender_consistent g \<and> (p, p) \<in> (parent_of g)\<^sup>+"
  then have "child_of g = (parent_of g)\<inverse>" by (simp add: child_of_converse)
  with a have "(p, p) \<in> (child_of g)\<^sup>+" by (simp add: trancl_converse)
  from descendants_own_descendant [OF this] obtain e where "descendants depth g p = Inl e"
    by (cases "descendants depth g p") auto
  with descendants_error [OF this]
  show "descendants depth g p = Inl RuntimeError" by simp
qed

theorem own_ancestor_never_returns_witness:
  "(eve, eve) \<in> (parent_of own_mother)\<^sup>+ \<and> (eve, eve) \<in> (child_of own_mother)\<^sup>+
   \<and> unique_pk own_mother \<and> gender_consistent own_mother
   \<and> ancestor_distances 7 own_mother eve 0 = Inl RuntimeError
   \<and> descendants 7 own_mother eve = Inl RuntimeError"
proof -
  have a: "(eve, eve) \<in> (parent_of own_mother)\<^sup>+"
    by (rule r_into_trancl) (simp add: parent_of_def own_mother_def eve_def row_def fetch_def)
  have d: "(eve, eve) \<in> (child_of own_mother)\<^sup>+"
    by (rule r_into_trancl) (simp add: child_of_def set_children own_mother_def eve_def row_def)
  have u: "unique_pk own_mother \<and> gender_consistent own_mother"
    by (simp add: unique_pk_def gender_consistent_def fetch_def own_mother_def eve_def row_def)
  have "ancestor_distances 7 own_mother eve 0 \<noteq> Inl DoesNotExist"
    by code_simp
  with a d u own_ancestor_never_returns [of eve own_mother 7 0]
  show ?thesis by simp
qed

subsection \<open>relatives\<close>

text \<open>
  C3. \<open>relatives\<close> computes no root ancestors: it ends in \<open>AttributeError\<close> at its
  first statement, \<open>ancestors = self.ancestors()\<close>, for Leopold, who has ancestors, as
  for Anna, who has none.
\<close>

theorem relatives_computes_no_roots:
  "ancestors 10 house leopold = Inl AttributeError
   \<and> relatives unlabelled 10 house leopold = Inl AttributeError
   \<and> ancestors 10 mother_and_son anna = Inl AttributeError
   \<and> relatives unlabelled 10 mother_and_son anna = Inl AttributeError"
  by (simp add: relatives_def ancestors_def getattr_Person_def)

text \<open>
  C4. \<open>relatives\<close> ends in \<open>AttributeError\<close> for every person and every store, so it
  returns no set to compare. For Leopold, in a family graph, the walk finds the
  ancestors 2, 5, 3 and 4, and the brute-force union over them, minus Leopold, is
  \<open>{2, 3, 4, 5}\<close>.
\<close>

theorem relatives_raises_AttributeError:
  "relatives describe_relative depth g self = Inl AttributeError
   \<and> map_sum id (map fst) (ancestor_distances 10 house leopold 0) = Inr [2, 5, 3, 4]
   \<and> brute_force_relatives 10 house leopold [2, 5, 3, 4] = Inr {2, 3, 4, 5}"
proof -
  have "relatives describe_relative depth g self = Inl AttributeError"
    by (simp add: relatives_def ancestors_def getattr_Person_def)
  moreover have "map_sum id (map fst) (ancestor_distances 10 house leopold 0) = Inr [2, 5, 3, 4]"
    by code_simp
  moreover have "brute_force_relatives 10 house leopold [2, 5, 3, 4] = Inr {2, 3, 4, 5}"
    by code_simp
  ultimately show ?thesis by (intro conjI)
qed

subsection \<open>Nobody is their own ancestor, descendant or relative\<close>

text \<open>
  C8. \<open>ancestors\<close> and \<open>relatives\<close> end in \<open>AttributeError\<close> for every person, so
  neither returns a result that the person could be absent from. Of what does return:
  with unique keys, the key of a person of the store is not among the keys of the
  ancestor walk and not among the descendants, at any recursion limit; and in a family
  graph (acyclic, as the specification requires) the walk and \<open>descendants\<close> return
  once the limit is large enough.
\<close>

theorem self_excluded:
  "ancestors depth g self = Inl AttributeError
   \<and> relatives describe_relative depth g self = Inl AttributeError
   \<and> (unique_pk g \<and> self \<in> set g \<longrightarrow>
        (\<forall>d. ancestor_distances depth g self 0 = Inr d \<longrightarrow> pk self \<notin> fst ` set d)
      \<and> (\<forall>ds. descendants depth g self = Inr ds \<longrightarrow> pk self \<notin> pk ` set ds))
   \<and> (family_graph g \<and> self \<in> set g \<longrightarrow>
        (\<exists>N. \<forall>n \<ge> N. \<exists>d ds.
            ancestor_distances n g self 0 = Inr d \<and> descendants n g self = Inr ds))"
proof (intro conjI impI allI)
  show "ancestors depth g self = Inl AttributeError"
    by (simp add: ancestors_def getattr_Person_def)
  show "relatives describe_relative depth g self = Inl AttributeError"
    by (simp add: relatives_def ancestors_def getattr_Person_def)
next
  fix d assume "unique_pk g \<and> self \<in> set g" and "ancestor_distances depth g self 0 = Inr d"
  then show "pk self \<notin> fst ` set d" using self_not_key [of g self depth 0 d] by blast
next
  fix ds assume "unique_pk g \<and> self \<in> set g" and "descendants depth g self = Inr ds"
  then show "pk self \<notin> pk ` set ds" using self_not_descendant [of g self depth ds] by blast
next
  assume a: "family_graph g \<and> self \<in> set g"
  then have u: "unique_pk g" and l: "links_resolve g" and gc: "gender_consistent g"
    and ac: "acyclic (parent_of g)" and self: "self \<in> set g"
    by (simp_all add: family_graph_def)
  have C: "child_of g = (parent_of g)\<inverse>" using u gc by (rule child_of_converse)
  have acC: "acyclic (child_of g)" using ac by (simp only: C acyclic_converse)
  from walk_returns [OF l ac self] obtain Nw where
    Nw: "\<forall>n \<ge> Nw. \<forall>off. \<exists>d. ancestor_distances n g self off = Inr d" ..
  from descendants_return [OF acC self] obtain Nd where
    Nd: "\<forall>n \<ge> Nd. \<exists>ds. descendants n g self = Inr ds" ..
  have "\<exists>d ds. ancestor_distances n g self 0 = Inr d \<and> descendants n g self = Inr ds"
    if "n \<ge> max Nw Nd" for n
  proof -
    from that Nw obtain d where "ancestor_distances n g self 0 = Inr d" by auto
    moreover from that Nd obtain ds where "descendants n g self = Inr ds" by auto
    ultimately show ?thesis by (intro exI conjI)
  qed
  then show "\<exists>N. \<forall>n \<ge> N. \<exists>d ds.
      ancestor_distances n g self 0 = Inr d \<and> descendants n g self = Inr ds" by blast
qed

theorem self_excluded_witness:
  "family_graph house \<and> unique_pk house \<and> karl \<in> set house \<and> leopold \<in> set house
   \<and> ancestors 10 house leopold = Inl AttributeError
   \<and> relatives unlabelled 10 house leopold = Inl AttributeError
   \<and> ancestor_distances 10 house leopold 0 = Inr [(2, 1), (5, 3), (3, 1), (4, 2)]
   \<and> pk leopold \<notin> fst ` set [(2, 1), (5, 3), (3, 1), (4, 2 :: int)]
   \<and> map pk (projr (descendants 10 house karl)) = [2, 4, 1, 3, 1]
   \<and> pk karl \<notin> pk ` set (projr (descendants 10 house karl))
   \<and> (\<exists>N. \<forall>n \<ge> N. \<exists>d ds.
         ancestor_distances n house karl 0 = Inr d \<and> descendants n house karl = Inr ds)"
proof -
  have k: "karl \<in> set house" and m: "leopold \<in> set house" by (simp_all add: house_def)
  have u: "unique_pk house" using house_family_graph by (simp add: family_graph_def)
  have w: "ancestor_distances 10 house leopold 0 = Inr [(2, 1), (5, 3), (3, 1), (4, 2)]"
    by code_simp
  have d: "descendants 10 house karl = Inr (projr (descendants 10 house karl))"
    by code_simp
  have dv: "map pk (projr (descendants 10 house karl)) = [2, 4, 1, 3, 1]"
    by code_simp
  note a = self_excluded [of 10 house leopold unlabelled]
  note b = self_excluded [of 10 house karl unlabelled]
  from a have e1: "ancestors 10 house leopold = Inl AttributeError" by (rule conjunct1)
  from a have e2: "relatives unlabelled 10 house leopold = Inl AttributeError"
    by (rule conjunct2 [THEN conjunct1])
  from a [THEN conjunct2, THEN conjunct2, THEN conjunct1, rule_format, OF conjI [OF u m],
      THEN conjunct1, rule_format, OF w]
  have c1: "pk leopold \<notin> fst ` set [(2, 1), (5, 3), (3, 1), (4, 2 :: int)]" .
  from b [THEN conjunct2, THEN conjunct2, THEN conjunct1, rule_format, OF conjI [OF u k],
      THEN conjunct2, rule_format, OF d]
  have c2: "pk karl \<notin> pk ` set (projr (descendants 10 house karl))" .
  from b [THEN conjunct2, THEN conjunct2, THEN conjunct2, rule_format,
      OF conjI [OF house_family_graph k]]
  have c3: "\<exists>N. \<forall>n \<ge> N. \<exists>d ds.
         ancestor_distances n house karl 0 = Inr d \<and> descendants n house karl = Inr ds" .
  from house_family_graph u k m e1 e2 w c1 dv c2 c3 show ?thesis by (intro conjI)
qed

subsection \<open>Duplicates among the descendants\<close>




end
